theory Spec2Isabelle
  imports Complex_Main "HOL-Library.Word"
begin

section \<open>Data model of binpacker.go\<close>

text \<open>
  Go's \<open>int\<close> is a two's complement machine integer; on the 64-bit platforms Go
  targets it has 64 bits. Addition, subtraction and multiplication wrap around, and the
  comparisons \<open><\<close> and \<open>>\<close> of the source are the signed ones (\<open><s\<close> on words).
\<close>

type_synonym int64 = "64 word"

text \<open>\<^verbatim>\<open>type Rect struct{ X, Y, Width, Height int }\<close>\<close>

record Rect =
  X :: int64
  Y :: int64
  Width :: int64
  Height :: int64

text \<open>
  \<^verbatim>\<open>type node struct { Rect; left, right *node }\<close>

  Every child is allocated by the function that attaches it and is reachable only through
  its parent, so a nil-able pointer to an owned node is an optional subtree.
\<close>

datatype node = Node (rect: Rect) (left: "node option") (right: "node option")

text \<open>\<^verbatim>\<open>type Packer struct { root node; binWidth, binHeight int }\<close>\<close>

record Packer =
  root :: node
  binWidth :: int64
  binHeight :: int64

text \<open>
  The two error values of the package: \<^verbatim>\<open>ErrNoMoreSpace\<close> and the error that
  \<^verbatim>\<open>Enlarge\<close> builds with \<^verbatim>\<open>errors.New("enlarge: new size is smaller")\<close>.
\<close>

datatype error = ErrNoMoreSpace | ErrEnlargeSmaller

text \<open>The zero value \<^verbatim>\<open>Rect{}\<close> and a node without children, \<^verbatim>\<open>&node{Rect: r}\<close>.\<close>

definition mkRect :: "int64 \<Rightarrow> int64 \<Rightarrow> int64 \<Rightarrow> int64 \<Rightarrow> Rect" where
  "mkRect x y w h = \<lparr>X = x, Y = y, Width = w, Height = h\<rparr>"

definition leafNode :: "Rect \<Rightarrow> node" where
  "leafNode r = Node r None None"

section \<open>Operations\<close>

text \<open>\<^verbatim>\<open>func New(width, height int) *Packer\<close>\<close>

definition New :: "int64 \<Rightarrow> int64 \<Rightarrow> Packer" where
  "New width height =
     \<lparr>root = leafNode (mkRect 0 0 width height), binWidth = width, binHeight = height\<rparr>"

text \<open>
  \<^verbatim>\<open>func (p *Packer) Enlarge(newWidth, newHeight int) error\<close>

  The method mutates the packer in place; the model returns the packer after the call
  together with the error value (\<open>None\<close> for \<^verbatim>\<open>nil\<close>).
\<close>

definition Enlarge :: "Packer \<Rightarrow> int64 \<Rightarrow> int64 \<Rightarrow> Packer \<times> error option" where
  "Enlarge p newWidth newHeight =
     (if newWidth <s binWidth p \<or> newHeight <s binHeight p then (p, Some ErrEnlargeSmaller)
      else
        (\<lparr>root = Node (mkRect 0 0 newWidth newHeight)
             (Some (leafNode (mkRect 0 (binHeight p) newWidth (newHeight - binHeight p))))
             (Some (leafNode (mkRect (binWidth p) 0 (newWidth - binWidth p) (binHeight p)))),
          binWidth = newWidth,
          binHeight = newHeight\<rparr>, None))"

text \<open>
  \<^verbatim>\<open>func insert(n *node, width, height int) (*node, error)\<close>

  The function works on the subtree below \<open>n\<close> in place. The model returns that subtree
  as it is after the call, and the result: \<open>Inl\<close> of the error when the returned pointer
  is nil, \<open>Inr\<close> of the node the returned pointer refers to otherwise. The inner
  \<open>case\<close> on a child is the guarded recursive call
  \<^verbatim>\<open>if c != nil { newNode, _ := insert(c, width, height); ... }\<close>; the source's
  \<^verbatim>\<open>width > n.Width\<close> is \<open>Width r <s width\<close>.
\<close>

fun insert_node :: "node \<Rightarrow> int64 \<Rightarrow> int64 \<Rightarrow> node \<times> (error + node)" where
  "insert_node (Node r l rt) width height =
     (if l \<noteq> None \<or> rt \<noteq> None then
        (case (case l of None \<Rightarrow> (None, Inl ErrNoMoreSpace)
                 | Some lc \<Rightarrow> (case insert_node lc width height of
                                (lc', res) \<Rightarrow> (Some lc', res))) of
           (l', Inr newNode) \<Rightarrow> (Node r l' rt, Inr newNode)
         | (l', Inl _) \<Rightarrow>
             (case (case rt of None \<Rightarrow> (None, Inl ErrNoMoreSpace)
                      | Some rc \<Rightarrow> (case insert_node rc width height of
                                     (rc', res) \<Rightarrow> (Some rc', res))) of
                (rt', Inr newNode) \<Rightarrow> (Node r l' rt', Inr newNode)
              | (rt', Inl _) \<Rightarrow> (Node r l' rt', Inl ErrNoMoreSpace)))
      else if Width r <s width \<or> Height r <s height then
        (Node r l rt, Inl ErrNoMoreSpace)
      else
        (let restW = Width r - width; restH = Height r - height;
             (l', rt') =
               (if restW <s restH then
                  (Some (leafNode (mkRect (X r + width) (Y r) restW height)),
                   Some (leafNode (mkRect (X r) (Y r + height) (Width r) restH)))
                else
                  (Some (leafNode (mkRect (X r) (Y r + height) width restH)),
                   Some (leafNode (mkRect (X r + width) (Y r) restW (Height r)))));
             n' = Node (r\<lparr>Width := width, Height := height\<rparr>) l' rt'
         in (n', Inr n')))"

text \<open>\<^verbatim>\<open>func (p *Packer) Insert(width, height int) (Rect, error)\<close>\<close>

definition Insert :: "Packer \<Rightarrow> int64 \<Rightarrow> int64 \<Rightarrow> Packer \<times> (error + Rect)" where
  "Insert p width height =
     (case insert_node (root p) width height of
        (n', Inl err) \<Rightarrow> (p\<lparr>root := n'\<rparr>, Inl err)
      | (n', Inr n) \<Rightarrow> (p\<lparr>root := n'\<rparr>, Inr (rect n)))"

text \<open>\<^verbatim>\<open>func usedArea(n *node) int\<close>\<close>

fun usedArea :: "node \<Rightarrow> int64" where
  "usedArea (Node r l rt) =
     (if l \<noteq> None \<or> rt \<noteq> None then
        (let used = Width r * Height r;
             used = (case l of None \<Rightarrow> used | Some lc \<Rightarrow> used + usedArea lc);
             used = (case rt of None \<Rightarrow> used | Some rc \<Rightarrow> used + usedArea rc)
         in used)
      else 0)"




section \<open>Vocabulary of the specification\<close>

subsection \<open>The split of a free rectangle\<close>

text \<open>A request fits a free rectangle when neither of its sides is larger.\<close>

definition fits :: "int64 \<Rightarrow> int64 \<Rightarrow> Rect \<Rightarrow> bool" where
  "fits width height r = (\<not> (Width r <s width \<or> Height r <s height))"

text \<open>The occupied rectangle: the position of the free rectangle, the requested size.\<close>

definition occupy :: "Rect \<Rightarrow> int64 \<Rightarrow> int64 \<Rightarrow> Rect" where
  "occupy r width height = r\<lparr>Width := width, Height := height\<rparr>"

text \<open>
  The two children as the specification words them: with \<open>restW = leaf.width - width\<close>
  and \<open>restH = leaf.height - height\<close>, if \<open>restW < restH\<close> they are
  \<open>(x+width, y, restW, height)\<close> and \<open>(x, y+height, leaf.width, restH)\<close>, otherwise
  \<open>(x, y+height, width, restH)\<close> and \<open>(x+width, y, restW, leaf.height)\<close>.
\<close>

definition split_children :: "Rect \<Rightarrow> int64 \<Rightarrow> int64 \<Rightarrow> Rect \<times> Rect" where
  "split_children r width height =
     (let restW = Width r - width; restH = Height r - height
      in if restW <s restH
         then (mkRect (X r + width) (Y r) restW height,
               mkRect (X r) (Y r + height) (Width r) restH)
         else (mkRect (X r) (Y r + height) width restH,
               mkRect (X r + width) (Y r) restW (Height r)))"

definition split_leaf :: "Rect \<Rightarrow> int64 \<Rightarrow> int64 \<Rightarrow> node" where
  "split_leaf r width height =
     Node (occupy r width height)
       (Some (leafNode (fst (split_children r width height))))
       (Some (leafNode (snd (split_children r width height))))"

subsection \<open>Leaves in depth-first order and first fit\<close>

text \<open>The rectangles of the leaves, left subtree before right subtree.\<close>

fun leaves :: "node \<Rightarrow> Rect list" where
  "leaves (Node r None None) = [r]"
| "leaves (Node r l rt) =
     (case l of None \<Rightarrow> [] | Some lc \<Rightarrow> leaves lc) @
     (case rt of None \<Rightarrow> [] | Some rc \<Rightarrow> leaves rc)"

text \<open>
  First fit on a list of free rectangles: the first one that fits is replaced by its two
  children, and the occupied rectangle is returned; \<open>None\<close> when none fits.
\<close>

fun first_fit :: "Rect list \<Rightarrow> int64 \<Rightarrow> int64 \<Rightarrow> (Rect list \<times> Rect) option" where
  "first_fit [] w h = None"
| "first_fit (f # fs) w h =
     (if fits w h f
      then Some (fst (split_children f w h) # snd (split_children f w h) # fs, occupy f w h)
      else (case first_fit fs w h of None \<Rightarrow> None | Some (fs', r) \<Rightarrow> Some (f # fs', r)))"

text \<open>
  \<open>leaf_replaced w h n n'\<close>: the tree \<open>n'\<close> is \<open>n\<close> with exactly one leaf changed.
  That leaf keeps its position, has width \<open>w\<close> and height \<open>h\<close>, and has two children
  that are leaves; every other node is the same in both trees.
\<close>

fun leaf_replaced :: "int64 \<Rightarrow> int64 \<Rightarrow> node \<Rightarrow> node \<Rightarrow> bool" where
  "leaf_replaced w h (Node r None None) n' =
     (case n' of
        Node r' (Some (Node a None None)) (Some (Node b None None)) \<Rightarrow>
          r' = r\<lparr>Width := w, Height := h\<rparr>
      | _ \<Rightarrow> False)"
| "leaf_replaced w h (Node r (Some l) None) n' =
     (case n' of
        Node r' (Some l') None \<Rightarrow> r' = r \<and> leaf_replaced w h l l'
      | _ \<Rightarrow> False)"
| "leaf_replaced w h (Node r None (Some rt)) n' =
     (case n' of
        Node r' None (Some rt') \<Rightarrow> r' = r \<and> leaf_replaced w h rt rt'
      | _ \<Rightarrow> False)"
| "leaf_replaced w h (Node r (Some l) (Some rt)) n' =
     (case n' of
        Node r' (Some l') (Some rt') \<Rightarrow>
          r' = r \<and> ((rt' = rt \<and> leaf_replaced w h l l') \<or> (l' = l \<and> leaf_replaced w h rt rt'))
      | _ \<Rightarrow> False)"


subsection \<open>Geometry\<close>

text \<open>
  Coordinates are read as signed integers. A rectangle covers the unit cells \<open>(i, j)\<close>
  with \<open>X \<le> i < X + Width\<close> and \<open>Y \<le> j < Y + Height\<close>; two rectangles overlap when
  they share a cell, and \<open>overlaps\<close> decides that (lemma \<open>overlaps_cells\<close>).
\<close>

definition cells :: "Rect \<Rightarrow> (int \<times> int) set" where
  "cells r = {(i, j). sint (X r) \<le> i \<and> i < sint (X r) + sint (Width r) \<and>
                      sint (Y r) \<le> j \<and> j < sint (Y r) + sint (Height r)}"

definition overlaps :: "Rect \<Rightarrow> Rect \<Rightarrow> bool" where
  "overlaps a b =
     (max (sint (X a)) (sint (X b))
        < min (sint (X a) + sint (Width a)) (sint (X b) + sint (Width b)) \<and>
      max (sint (Y a)) (sint (Y b))
        < min (sint (Y a) + sint (Height a)) (sint (Y b) + sint (Height b)))"

definition lies_within :: "Rect \<Rightarrow> Rect \<Rightarrow> bool" where
  "lies_within r b =
     (sint (X b) \<le> sint (X r) \<and> sint (X r) + sint (Width r) \<le> sint (X b) + sint (Width b) \<and>
      sint (Y b) \<le> sint (Y r) \<and> sint (Y r) + sint (Height r) \<le> sint (Y b) + sint (Height b))"

definition area :: "Rect \<Rightarrow> int" where
  "area r = sint (Width r) * sint (Height r)"

definition sized :: "Rect \<Rightarrow> bool" where
  "sized r = (0 \<le> sint (Width r) \<and> 0 \<le> sint (Height r))"

definition inbin :: "int64 \<Rightarrow> int64 \<Rightarrow> Rect \<Rightarrow> bool" where
  "inbin bw bh r = (sized r \<and> lies_within r (mkRect 0 0 bw bh))"

fun disjoint_rects :: "Rect list \<Rightarrow> bool" where
  "disjoint_rects [] = True"
| "disjoint_rects (r # rs) = ((\<forall>s \<in> set rs. \<not> overlaps r s) \<and> disjoint_rects rs)"


definition total_area :: "Rect list \<Rightarrow> int" where
  "total_area rs = sum_list (map area rs)"

definition apart :: "Rect list \<Rightarrow> Rect list \<Rightarrow> bool" where
  "apart rs fs = (\<forall>r \<in> set rs. \<forall>f \<in> set fs. \<not> overlaps r f)"

text \<open>
  The invariant of a packer between calls, for the returned rectangles \<open>rs\<close> and the free
  rectangles \<open>fs\<close>: all lie in the bin with sides that are not negative, no two of them
  overlap, and their areas add up to the area of the bin.
\<close>

definition packing :: "int64 \<Rightarrow> int64 \<Rightarrow> Rect list \<Rightarrow> Rect list \<Rightarrow> bool" where
  "packing bw bh rs fs =
     ((\<forall>r \<in> set (rs @ fs). inbin bw bh r) \<and>
      disjoint_rects rs \<and> disjoint_rects fs \<and> apart rs fs \<and>
      total_area rs + total_area fs = sint bw * sint bh)"

subsection \<open>Sequences of calls\<close>

text \<open>A run of \<^verbatim>\<open>Insert\<close> calls on one packer, with the result of every call.\<close>

fun Inserts :: "Packer \<Rightarrow> (int64 \<times> int64) list \<Rightarrow> Packer \<times> (error + Rect) list" where
  "Inserts p [] = (p, [])"
| "Inserts p ((w, h) # cs) =
     (case Insert p w h of (p', res) \<Rightarrow>
        (case Inserts p' cs of (p'', ress) \<Rightarrow> (p'', res # ress)))"

text \<open>The rectangles returned by the successful calls, in call order.\<close>

fun placed :: "(error + Rect) list \<Rightarrow> Rect list" where
  "placed [] = []"
| "placed (Inl e # xs) = placed xs"
| "placed (Inr r # xs) = r # placed xs"

definition nonneg_calls :: "(int64 \<times> int64) list \<Rightarrow> bool" where
  "nonneg_calls cs = list_all (\<lambda>(w, h). 0 \<le>s w \<and> 0 \<le>s h) cs"

subsection \<open>Reading an occupancy\<close>



section \<open>Properties of the operations\<close>

subsection \<open>The equations of insert, by the shape of the node\<close>

lemma insert_node_leaf:
  "insert_node (Node r None None) w h =
     (if fits w h r then (split_leaf r w h, Inr (split_leaf r w h))
      else (Node r None None, Inl ErrNoMoreSpace))"
  by (simp add: fits_def split_leaf_def split_children_def occupy_def Let_def)

lemma insert_node_both:
  "insert_node (Node r (Some l) (Some rt)) w h =
     (case insert_node l w h of
        (l', Inr nn) \<Rightarrow> (Node r (Some l') (Some rt), Inr nn)
      | (l', Inl e) \<Rightarrow>
          (case insert_node rt w h of
             (rt', Inr nn) \<Rightarrow> (Node r (Some l') (Some rt'), Inr nn)
           | (rt', Inl e') \<Rightarrow> (Node r (Some l') (Some rt'), Inl ErrNoMoreSpace)))"
  by (simp split: prod.splits sum.splits)

lemma insert_node_left_only:
  "insert_node (Node r (Some l) None) w h =
     (case insert_node l w h of
        (l', Inr nn) \<Rightarrow> (Node r (Some l') None, Inr nn)
      | (l', Inl e) \<Rightarrow> (Node r (Some l') None, Inl ErrNoMoreSpace))"
  by (simp split: prod.splits sum.splits)

lemma insert_node_right_only:
  "insert_node (Node r None (Some rt)) w h =
     (case insert_node rt w h of
        (rt', Inr nn) \<Rightarrow> (Node r None (Some rt'), Inr nn)
      | (rt', Inl e) \<Rightarrow> (Node r None (Some rt'), Inl ErrNoMoreSpace))"
  by (simp split: prod.splits sum.splits)

lemmas insert_node_eqs =
  insert_node_leaf insert_node_both insert_node_left_only insert_node_right_only

declare insert_node.simps [simp del]

lemma node_shape_induct [case_names Leaf Left Right Both]:
  assumes "\<And>r. P (Node r None None)"
    and "\<And>r l. P l \<Longrightarrow> P (Node r (Some l) None)"
    and "\<And>r rt. P rt \<Longrightarrow> P (Node r None (Some rt))"
    and "\<And>r l rt. P l \<Longrightarrow> P rt \<Longrightarrow> P (Node r (Some l) (Some rt))"
  shows "P n"
proof (induction n)
  case (Node r l rt)
  then show ?case
    by (cases l; cases rt) (auto intro: assms)
qed

lemma insert_node_fail_unchanged:
  "insert_node n w h = (n', Inl e) \<Longrightarrow> n' = n \<and> e = ErrNoMoreSpace"
proof (induction n arbitrary: n' e rule: node_shape_induct)
  case (Leaf r)
  then show ?case by (auto simp: insert_node_eqs split: if_splits)
next
  case (Left r l)
  then show ?case by (auto simp: insert_node_eqs split: prod.splits sum.splits)
next
  case (Right r rt)
  then show ?case by (auto simp: insert_node_eqs split: prod.splits sum.splits)
next
  case (Both r l rt)
  then show ?case by (auto simp: insert_node_eqs split: prod.splits sum.splits)
qed

subsection \<open>Signed arithmetic without overflow\<close>

lemma sint_add64:
  "- (2 ^ 63) \<le> sint a + sint b \<Longrightarrow> sint a + sint b < 2 ^ 63 \<Longrightarrow>
   sint (a + b :: int64) = sint a + sint b"
  by (simp add: sint_word_ariths signed_take_bit_int_eq_self)

lemma sint_sub64:
  "- (2 ^ 63) \<le> sint a - sint b \<Longrightarrow> sint a - sint b < 2 ^ 63 \<Longrightarrow>
   sint (a - b :: int64) = sint a - sint b"
  by (simp add: sint_word_ariths signed_take_bit_int_eq_self)

lemma sint_bounds64: "- (2 ^ 63) \<le> sint (a :: int64)" "sint (a :: int64) < 2 ^ 63"
  using sint_ge [of a] sint_lt [of a] by simp_all


subsection \<open>Cells and overlap\<close>

lemma overlaps_cells: "overlaps a b \<longleftrightarrow> cells a \<inter> cells b \<noteq> {}"
proof
  assume "overlaps a b"
  then have "(max (sint (X a)) (sint (X b)), max (sint (Y a)) (sint (Y b))) \<in> cells a \<inter> cells b"
    by (auto simp: overlaps_def cells_def)
  then show "cells a \<inter> cells b \<noteq> {}" by blast
next
  assume "cells a \<inter> cells b \<noteq> {}"
  then obtain i j where "(i, j) \<in> cells a" "(i, j) \<in> cells b" by auto
  then show "overlaps a b"
    by (auto simp: overlaps_def cells_def)
qed

lemma overlaps_sym: "overlaps a b = overlaps b a"
  by (auto simp: overlaps_def)



subsection \<open>Splitting one free rectangle\<close>

lemma split_arith:
  assumes "inbin bw bh f" "0 \<le> sint w" "0 \<le> sint h" "fits w h f"
  shows "sint (X f + w) = sint (X f) + sint w"
    and "sint (Y f + h) = sint (Y f) + sint h"
    and "sint (Width f - w) = sint (Width f) - sint w"
    and "sint (Height f - h) = sint (Height f) - sint h"
    and "sint w \<le> sint (Width f)" and "sint h \<le> sint (Height f)"
    and "0 \<le> sint (X f)" and "0 \<le> sint (Y f)"
    and "sint (X f) + sint (Width f) \<le> sint bw"
    and "sint (Y f) + sint (Height f) \<le> sint bh"
proof -
  from assms(4) show le: "sint w \<le> sint (Width f)" "sint h \<le> sint (Height f)"
    by (auto simp: fits_def word_sless_alt)
  from assms(1) show b: "0 \<le> sint (X f)" "0 \<le> sint (Y f)"
    "sint (X f) + sint (Width f) \<le> sint bw" "sint (Y f) + sint (Height f) \<le> sint bh"
    by (auto simp: inbin_def lies_within_def mkRect_def)
  note r = sint_bounds64 [of bw] sint_bounds64 [of bh]
  show "sint (X f + w) = sint (X f) + sint w"
    using le b r assms(2) by (intro sint_add64) linarith+
  show "sint (Y f + h) = sint (Y f) + sint h"
    using le b r assms(3) by (intro sint_add64) linarith+
  show "sint (Width f - w) = sint (Width f) - sint w"
    using le b r assms(2) by (intro sint_sub64) linarith+
  show "sint (Height f - h) = sint (Height f) - sint h"
    using le b r assms(3) by (intro sint_sub64) linarith+
qed

lemma split_inbin:
  assumes "inbin bw bh f" "0 \<le> sint w" "0 \<le> sint h" "fits w h f"
  shows "inbin bw bh (occupy f w h)"
    and "inbin bw bh (fst (split_children f w h))"
    and "inbin bw bh (snd (split_children f w h))"
  using split_arith [OF assms] assms(2,3)
  by (auto simp: inbin_def sized_def lies_within_def mkRect_def occupy_def split_children_def Let_def)

lemma split_cells:
  assumes "inbin bw bh f" "0 \<le> sint w" "0 \<le> sint h" "fits w h f"
  shows "cells f = cells (occupy f w h) \<union> cells (fst (split_children f w h))
                     \<union> cells (snd (split_children f w h))"
    and "cells (occupy f w h) \<inter> cells (fst (split_children f w h)) = {}"
    and "cells (occupy f w h) \<inter> cells (snd (split_children f w h)) = {}"
    and "cells (fst (split_children f w h)) \<inter> cells (snd (split_children f w h)) = {}"
  using split_arith [OF assms] assms(2,3)
  by (auto simp: cells_def mkRect_def occupy_def split_children_def Let_def)

lemma split_area:
  assumes "inbin bw bh f" "0 \<le> sint w" "0 \<le> sint h" "fits w h f"
  shows "area f = sint w * sint h + area (fst (split_children f w h))
                   + area (snd (split_children f w h))"
proof -
  have a: "sint (Width f - w) = sint (Width f) - sint w"
    and b: "sint (Height f - h) = sint (Height f) - sint h"
    using split_arith(3,4) [OF assms] by simp_all
  show ?thesis
    by (simp add: area_def mkRect_def split_children_def Let_def a b algebra_simps)
qed

subsection \<open>Insert is first fit on the leaves\<close>

lemma first_fit_append:
  "first_fit (xs @ ys) w h =
     (case first_fit xs w h of
        Some (xs', r) \<Rightarrow> Some (xs' @ ys, r)
      | None \<Rightarrow> (case first_fit ys w h of None \<Rightarrow> None | Some (ys', r) \<Rightarrow> Some (xs @ ys', r)))"
  by (induction xs) (auto split: option.splits)

lemma leaves_split_leaf:
  "leaves (split_leaf r w h) = [fst (split_children r w h), snd (split_children r w h)]"
  by (simp add: split_leaf_def leafNode_def)

lemma rect_split_leaf: "rect (split_leaf r w h) = occupy r w h"
  by (simp add: split_leaf_def)

lemma insert_node_first_fit:
  "(case insert_node n w h of
      (n', Inl e) \<Rightarrow> first_fit (leaves n) w h = None \<and> n' = n \<and> e = ErrNoMoreSpace
    | (n', Inr nn) \<Rightarrow> first_fit (leaves n) w h = Some (leaves n', rect nn))"
proof (induction n rule: node_shape_induct)
  case (Leaf r)
  show ?case
    by (simp add: insert_node_leaf leaves_split_leaf rect_split_leaf)
next
  case (Left r l)
  then show ?case
    by (auto simp: insert_node_left_only split: prod.splits sum.splits)
next
  case (Right r rt)
  then show ?case
    by (auto simp: insert_node_right_only split: prod.splits sum.splits)
next
  case (Both r l rt)
  then show ?case
    by (auto simp: insert_node_both first_fit_append split: prod.splits sum.splits)
qed

subsection \<open>The used area of a tree\<close>

lemma usedArea_leaf: "usedArea (Node r None None) = 0"
  by simp

lemma usedArea_both:
  "usedArea (Node r (Some l) (Some rt)) = Width r * Height r + usedArea l + usedArea rt"
  by simp

lemma usedArea_left_only:
  "usedArea (Node r (Some l) None) = Width r * Height r + usedArea l"
  by simp

lemma usedArea_right_only:
  "usedArea (Node r None (Some rt)) = Width r * Height r + usedArea rt"
  by simp

lemmas usedArea_eqs = usedArea_leaf usedArea_both usedArea_left_only usedArea_right_only

declare usedArea.simps [simp del]

lemma usedArea_split_leaf: "usedArea (split_leaf r w h) = w * h"
  by (simp add: split_leaf_def leafNode_def occupy_def usedArea_eqs)

lemma insert_node_success_dims:
  "insert_node n w h = (n', Inr nn) \<Longrightarrow> Width (rect nn) = w \<and> Height (rect nn) = h"
proof (induction n arbitrary: n' rule: node_shape_induct)
  case (Leaf r)
  then show ?case
    by (auto simp: insert_node_leaf rect_split_leaf occupy_def split: if_splits)
next
  case (Left r l)
  then show ?case
    by (auto simp: insert_node_left_only split: prod.splits sum.splits)
next
  case (Right r rt)
  then show ?case
    by (auto simp: insert_node_right_only split: prod.splits sum.splits)
next
  case (Both r l rt)
  then show ?case
    by (auto simp: insert_node_both split: prod.splits sum.splits)
qed

lemma insert_node_usedArea:
  "insert_node n w h = (n', Inr nn) \<Longrightarrow> usedArea n' = usedArea n + w * h"
proof (induction n arbitrary: n' rule: node_shape_induct)
  case (Leaf r)
  then show ?case
    by (auto simp: insert_node_leaf usedArea_split_leaf usedArea_eqs split: if_splits)
next
  case (Left r l)
  then show ?case
    by (auto simp: insert_node_left_only usedArea_eqs split: prod.splits sum.splits)
next
  case (Right r rt)
  then show ?case
    by (auto simp: insert_node_right_only usedArea_eqs split: prod.splits sum.splits)
next
  case (Both r l rt)
  then show ?case
    by (auto simp: insert_node_both usedArea_eqs dest: insert_node_fail_unchanged
             split: prod.splits sum.splits)
qed

subsection \<open>One placement keeps the packing invariant\<close>

lemma disjoint_rects_append:
  "disjoint_rects (xs @ ys) \<longleftrightarrow>
     disjoint_rects xs \<and> disjoint_rects ys \<and> (\<forall>x \<in> set xs. \<forall>y \<in> set ys. \<not> overlaps x y)"
  by (induction xs) auto

lemma first_fit_decompose:
  "first_fit fs w h = Some (fs', r) \<Longrightarrow>
   \<exists>fs1 f fs2. fs = fs1 @ f # fs2 \<and> fits w h f \<and> (\<forall>g \<in> set fs1. \<not> fits w h g) \<and>
     fs' = fs1 @ fst (split_children f w h) # snd (split_children f w h) # fs2 \<and>
     r = occupy f w h"
proof (induction fs arbitrary: fs')
  case Nil
  then show ?case by simp
next
  case (Cons g gs)
  show ?case
  proof (cases "fits w h g")
    case True
    with Cons.prems have "g # gs = [] @ g # gs \<and> fits w h g \<and> (\<forall>k \<in> set []. \<not> fits w h k) \<and>
        fs' = [] @ fst (split_children g w h) # snd (split_children g w h) # gs \<and> r = occupy g w h"
      by auto
    then show ?thesis by blast
  next
    case False
    with Cons.prems obtain gs' where g: "first_fit gs w h = Some (gs', r)" and fs': "fs' = g # gs'"
      by (auto split: option.splits)
    from Cons.IH [OF g] obtain fs1 f fs2 where
      "gs = fs1 @ f # fs2" "fits w h f" "\<forall>k \<in> set fs1. \<not> fits w h k"
      "gs' = fs1 @ fst (split_children f w h) # snd (split_children f w h) # fs2" "r = occupy f w h"
      by blast
    with False fs' have "g # gs = (g # fs1) @ f # fs2 \<and> fits w h f \<and>
        (\<forall>k \<in> set (g # fs1). \<not> fits w h k) \<and>
        fs' = (g # fs1) @ fst (split_children f w h) # snd (split_children f w h) # fs2 \<and>
        r = occupy f w h"
      by simp
    then show ?thesis by blast
  qed
qed

lemma disjoint_rects_replace:
  assumes d: "disjoint_rects (xs @ f # ys)"
    and a: "cells a \<subseteq> cells f" and b: "cells b \<subseteq> cells f" and ab: "cells a \<inter> cells b = {}"
  shows "disjoint_rects (xs @ a # b # ys)"
proof -
  from d have d1: "disjoint_rects xs" and d2: "disjoint_rects ys"
    and d3: "\<forall>x \<in> set xs. cells x \<inter> cells f = {}"
    and d4: "\<forall>x \<in> set xs. \<forall>y \<in> set ys. cells x \<inter> cells y = {}"
    and d5: "\<forall>y \<in> set ys. cells f \<inter> cells y = {}"
    by (simp_all add: disjoint_rects_append overlaps_cells)
  have e3: "\<forall>x \<in> set xs. cells x \<inter> cells a = {}" using d3 a by blast
  have e4: "\<forall>x \<in> set xs. cells x \<inter> cells b = {}" using d3 b by blast
  have e5: "\<forall>y \<in> set ys. cells a \<inter> cells y = {}" using d5 a by blast
  have e6: "\<forall>y \<in> set ys. cells b \<inter> cells y = {}" using d5 b by blast
  show ?thesis
    by (simp add: disjoint_rects_append overlaps_cells d1 d2 d4 e3 e4 e5 e6 ab ball_Un)
qed

lemma disjoint_rects_snoc:
  "disjoint_rects (xs @ [r]) \<longleftrightarrow> disjoint_rects xs \<and> (\<forall>x \<in> set xs. \<not> overlaps x r)"
  by (simp add: disjoint_rects_append)

lemma disjoint_rects_mid:
  assumes "disjoint_rects (xs @ f # ys)"
  shows "\<forall>g \<in> set (xs @ ys). cells g \<inter> cells f = {}"
proof -
  from assms have "\<forall>x \<in> set xs. cells x \<inter> cells f = {}"
    and "\<forall>y \<in> set ys. cells f \<inter> cells y = {}"
    by (simp_all add: disjoint_rects_append overlaps_cells)
  then show ?thesis by (simp add: ball_Un) blast
qed

lemma packing_step:
  assumes p: "packing bw bh rs fs" and w: "0 \<le> sint w" and h: "0 \<le> sint h"
    and ff: "first_fit fs w h = Some (fs', r)"
  shows "packing bw bh (rs @ [r]) fs'"
proof -
  from first_fit_decompose [OF ff] obtain fs1 f fs2 where
    fs: "fs = fs1 @ f # fs2" and fit: "fits w h f"
    and fs': "fs' = fs1 @ fst (split_children f w h) # snd (split_children f w h) # fs2"
    and r: "r = occupy f w h"
    by blast
  define c1 where "c1 = fst (split_children f w h)"
  define c2 where "c2 = snd (split_children f w h)"
  have fs'': "fs' = fs1 @ c1 # c2 # fs2" by (simp add: fs' c1_def c2_def)
  from p fs have inf: "inbin bw bh f" by (simp add: packing_def)
  note ib = split_inbin [OF inf w h fit, folded c1_def c2_def r]
  note cl = split_cells [OF inf w h fit, folded c1_def c2_def r]
  note ar = split_area [OF inf w h fit, folded c1_def c2_def]
  have sub: "cells r \<subseteq> cells f" "cells c1 \<subseteq> cells f" "cells c2 \<subseteq> cells f"
    using cl(1) by auto
  have area_r: "area r = sint w * sint h"
    by (simp add: r area_def occupy_def)
  from p have inb: "\<forall>x \<in> set rs. inbin bw bh x" "\<forall>x \<in> set fs1. inbin bw bh x"
    "\<forall>x \<in> set fs2. inbin bw bh x"
    by (simp_all add: packing_def fs ball_Un)
  have 1: "\<forall>x \<in> set ((rs @ [r]) @ fs'). inbin bw bh x"
    using inb ib by (simp add: fs'' ball_Un)
  from p have drs: "disjoint_rects rs" and dfs: "disjoint_rects (fs1 @ f # fs2)"
    and ap: "\<forall>x \<in> set rs. \<forall>g \<in> set fs. cells x \<inter> cells g = {}"
    by (simp_all add: packing_def fs apart_def overlaps_cells)
  have rf: "\<forall>x \<in> set rs. cells x \<inter> cells f = {}"
    using ap by (simp add: fs)
  have 2: "disjoint_rects (rs @ [r])"
    unfolding disjoint_rects_snoc overlaps_cells using drs rf sub(1) by blast
  have 3: "disjoint_rects fs'"
    unfolding fs'' using dfs sub(2,3) cl(4) by (rule disjoint_rects_replace)
  have others: "\<forall>g \<in> set (fs1 @ fs2). cells g \<inter> cells f = {}"
    using dfs by (rule disjoint_rects_mid)
  have a1: "\<forall>x \<in> set rs. \<forall>g \<in> set (fs1 @ fs2). cells x \<inter> cells g = {}"
    using ap by (simp add: fs ball_Un)
  have a2: "\<forall>x \<in> set rs. cells x \<inter> cells c1 = {}" using rf sub(2) by blast
  have a3: "\<forall>x \<in> set rs. cells x \<inter> cells c2 = {}" using rf sub(3) by blast
  have a4: "\<forall>g \<in> set (fs1 @ fs2). cells r \<inter> cells g = {}" using others sub(1) by blast
  have 4: "apart (rs @ [r]) fs'"
    using a1 a2 a3 a4 cl(2,3) by (simp add: apart_def overlaps_cells fs'' ball_Un)
  have 5: "total_area (rs @ [r]) + total_area fs' = sint bw * sint bh"
    using p ar area_r by (simp add: packing_def total_area_def fs fs'')
  from 1 2 3 4 5 show ?thesis
    unfolding packing_def by blast
qed

subsection \<open>Runs of Insert calls\<close>

lemma Insert_cases:
  "(case Insert p w h of
      (p', Inl e) \<Rightarrow> first_fit (leaves (root p)) w h = None \<and> p' = p \<and> e = ErrNoMoreSpace
    | (p', Inr r) \<Rightarrow> first_fit (leaves (root p)) w h = Some (leaves (root p'), r) \<and>
        binWidth p' = binWidth p \<and> binHeight p' = binHeight p \<and>
        usedArea (root p') = usedArea (root p) + w * h)"
  using insert_node_first_fit [of "root p" w h]
  by (auto simp: Insert_def insert_node_usedArea split: prod.splits sum.splits)

lemma Insert_packing:
  assumes "packing bw bh rs (leaves (root p))" "0 \<le>s w" "0 \<le>s h" "Insert p w h = (p', res)"
  shows "packing bw bh (rs @ placed [res]) (leaves (root p'))"
proof (cases res)
  case (Inl e)
  with assms(4) Insert_cases [of p w h] have "p' = p" by simp
  with Inl assms(1) show ?thesis by simp
next
  case (Inr r)
  with assms(4) Insert_cases [of p w h]
  have "first_fit (leaves (root p)) w h = Some (leaves (root p'), r)" by simp
  from packing_step [OF assms(1) _ _ this] assms(2,3) Inr show ?thesis
    by (simp add: word_sle_eq)
qed

lemma placed_append: "placed (xs @ ys) = placed xs @ placed ys"
  by (induction xs rule: placed.induct) simp_all

lemma Inserts_packing:
  "packing bw bh rs (leaves (root p)) \<Longrightarrow> nonneg_calls cs \<Longrightarrow> Inserts p cs = (p', ress) \<Longrightarrow>
   packing bw bh (rs @ placed ress) (leaves (root p'))"
proof (induction cs arbitrary: p rs ress)
  case Nil
  then show ?case by simp
next
  case (Cons c cs)
  obtain w h where c: "c = (w, h)" by (cases c)
  obtain p1 res where i: "Insert p w h = (p1, res)" by (cases "Insert p w h")
  obtain p2 ress2 where is2: "Inserts p1 cs = (p2, ress2)" by (cases "Inserts p1 cs")
  from Cons.prems(3) c i is2 have eq: "p' = p2" "ress = res # ress2" by simp_all
  from Cons.prems(2) c have nn: "0 \<le>s w" "0 \<le>s h" "nonneg_calls cs"
    by (simp_all add: nonneg_calls_def)
  have "packing bw bh (rs @ placed [res]) (leaves (root p1))"
    using Cons.prems(1) nn(1,2) i by (rule Insert_packing)
  from Cons.IH [OF this nn(3) is2 [folded eq(1)]] show ?case
    using placed_append [of "[res]" ress2] by (simp add: eq)
qed

lemma New_packing:
  assumes "0 \<le>s bw" "0 \<le>s bh"
  shows "packing bw bh [] (leaves (root (New bw bh)))"
  using assms
  by (simp add: packing_def New_def leafNode_def inbin_def sized_def lies_within_def mkRect_def
      apart_def total_area_def area_def word_sle_eq)

lemma Inserts_New_packing:
  assumes "0 \<le>s bw" "0 \<le>s bh" "nonneg_calls cs" "Inserts (New bw bh) cs = (p, ress)"
  shows "packing bw bh (placed ress) (leaves (root p))"
  using Inserts_packing [OF New_packing [OF assms(1,2)] assms(3,4)] by simp

subsection \<open>The frame of a successful insert\<close>

lemma insert_node_leaf_replaced:
  "insert_node n w h = (n', Inr nn) \<Longrightarrow> leaf_replaced w h n n'"
proof (induction n arbitrary: n' rule: node_shape_induct)
  case (Leaf r)
  then show ?case
    by (auto simp: insert_node_leaf split_leaf_def leafNode_def occupy_def split: if_splits)
next
  case (Left r l)
  then show ?case
    by (auto simp: insert_node_left_only split: prod.splits sum.splits)
next
  case (Right r rt)
  then show ?case
    by (auto simp: insert_node_right_only split: prod.splits sum.splits)
next
  case (Both r l rt)
  then show ?case
    by (auto simp: insert_node_both dest: insert_node_fail_unchanged split: prod.splits sum.splits)
qed

subsection \<open>The split in the words of the specification\<close>

lemma fits_iff: "fits w h r \<longleftrightarrow> w \<le>s Width r \<and> h \<le>s Height r"
  by (auto simp: fits_def word_sle_eq word_sless_alt)

lemma occupy_mkRect: "occupy r w h = mkRect (X r) (Y r) w h"
  by (cases r) (simp add: occupy_def mkRect_def)

subsection \<open>Bins of zero area\<close>

lemma first_fit_None: "first_fit fs w h = None \<longleftrightarrow> (\<forall>f \<in> set fs. \<not> fits w h f)"
  by (induction fs) (auto split: option.splits)

lemma inbin_sides:
  assumes "inbin bw bh f"
  shows "0 \<le> sint (Width f)" "sint (Width f) \<le> sint bw"
    "0 \<le> sint (Height f)" "sint (Height f) \<le> sint bh"
  using assms by (auto simp: inbin_def sized_def lies_within_def mkRect_def)

lemma flat_bin_no_fit:
  assumes "packing bw bh rs fs" and "bw = 0 \<or> bh = 0" and "0 <s w" and "0 <s h"
  shows "first_fit fs w h = None"
proof -
  have "\<not> fits w h f" if "f \<in> set fs" for f
  proof -
    from assms(1) that have "inbin bw bh f" by (simp add: packing_def)
    from inbin_sides [OF this] assms(2) have "sint (Width f) \<le> 0 \<or> sint (Height f) \<le> 0"
      by auto
    with assms(3,4) show ?thesis
      by (auto simp: fits_def word_sless_alt)
  qed
  then show ?thesis by (simp add: first_fit_None)
qed

lemma Insert_no_fit:
  "first_fit (leaves (root p)) w h = None \<Longrightarrow> Insert p w h = (p, Inl ErrNoMoreSpace)"
  using Insert_cases [of p w h]
  by (cases "Insert p w h") (auto split: sum.splits)

subsection \<open>Used area and occupancy\<close>















lemma total_area_snoc: "total_area (rs @ [r]) = total_area rs + area r"
  by (simp add: total_area_def)







subsection \<open>Disjointness, pair by pair\<close>

lemma disjoint_rects_nth:
  "disjoint_rects rs \<longleftrightarrow>
     (\<forall>i j. i < j \<and> j < length rs \<longrightarrow> cells (rs ! i) \<inter> cells (rs ! j) = {})"
proof (induction rs)
  case Nil
  then show ?case by simp
next
  case (Cons r rs)
  have "(\<forall>i j. i < j \<and> j < length (r # rs) \<longrightarrow> cells ((r # rs) ! i) \<inter> cells ((r # rs) ! j) = {})
    \<longleftrightarrow> (\<forall>j < length rs. cells r \<inter> cells (rs ! j) = {}) \<and>
        (\<forall>i j. i < j \<and> j < length rs \<longrightarrow> cells (rs ! i) \<inter> cells (rs ! j) = {})"
    (is "?L \<longleftrightarrow> ?A \<and> ?B")
  proof
    assume l: ?L
    have ?A
    proof (intro allI impI)
      fix j assume "j < length rs"
      with l [rule_format, of 0 "Suc j"] show "cells r \<inter> cells (rs ! j) = {}" by simp
    qed
    moreover have ?B
    proof (intro allI impI)
      fix i j assume "i < j \<and> j < length rs"
      with l [rule_format, of "Suc i" "Suc j"] show "cells (rs ! i) \<inter> cells (rs ! j) = {}"
        by simp
    qed
    ultimately show "?A \<and> ?B" ..
  next
    assume ab: "?A \<and> ?B"
    show ?L
    proof (intro allI impI)
      fix i j assume ij: "i < j \<and> j < length (r # rs)"
      then obtain j' where j: "j = Suc j'" by (cases j) auto
      show "cells ((r # rs) ! i) \<inter> cells ((r # rs) ! j) = {}"
      proof (cases i)
        case 0
        with ab ij j show ?thesis by simp
      next
        case (Suc i')
        with ab ij j show ?thesis by simp
      qed
    qed
  qed
  moreover have "(\<forall>s \<in> set rs. \<not> overlaps r s) \<longleftrightarrow> (\<forall>j < length rs. cells r \<inter> cells (rs ! j) = {})"
    by (simp add: overlaps_cells all_set_conv_all_nth)
  ultimately show ?case using Cons.IH by simp
qed

section \<open>The claims\<close>

subsection \<open>Claim C1\<close>




subsection \<open>Claim C2\<close>

text \<open>
  C2, counterexample. With a negative height in one request the packer returns rectangles
  that overlap: on a 4x4 bin the calls Insert(2, 2), Insert(1, -2), Insert(2, 4) all succeed
  and return (0, 0, 2, 2), (0, 2, 1, -2) and (0, 0, 2, 4); the third covers the first. With
  negative sizes a returned rectangle can also leave the bin: Insert(-1, -1), Insert(5, 4)
  returns (-1, 0, 5, 4) second.
\<close>

theorem C2_negative_request_counterexample:
  "placed (snd (Inserts (New 4 4) [(2, 2), (1, - 2), (2, 4)]))
     = [mkRect 0 0 2 2, mkRect 0 2 1 (- 2), mkRect 0 0 2 4] \<and>
   overlaps (mkRect 0 0 2 2) (mkRect 0 0 2 4) \<and>
   \<not> disjoint_rects (placed (snd (Inserts (New 4 4) [(2, 2), (1, - 2), (2, 4)]))) \<and>
   placed (snd (Inserts (New 4 4) [(- 1, - 1), (5, 4)]))
     = [mkRect 0 0 (- 1) (- 1), mkRect (- 1) 0 5 4] \<and>
   \<not> lies_within (mkRect (- 1) 0 5 4) (mkRect 0 0 4 4)"
  by code_simp

text \<open>
  C2, amended. For a bin built by New with a width and a height that are not negative, and
  every sequence of Insert calls whose widths and heights are not negative (no Enlarge),
  the rectangles returned by the successful calls are pairwise non-overlapping and each
  lies fully within the bin rectangle (0, 0, binWidth, binHeight).
\<close>

theorem C2_no_overlap_within_bin:
  assumes "0 \<le>s bw" and "0 \<le>s bh" and "nonneg_calls cs"
    and "Inserts (New bw bh) cs = (p, ress)"
  shows "disjoint_rects (placed ress) \<and>
         (\<forall>i j. i < j \<and> j < length (placed ress) \<longrightarrow>
            cells (placed ress ! i) \<inter> cells (placed ress ! j) = {}) \<and>
         (\<forall>r \<in> set (placed ress). lies_within r (mkRect 0 0 bw bh))"
proof -
  have "packing bw bh (placed ress) (leaves (root p))"
    using assms by (rule Inserts_New_packing)
  then have "disjoint_rects (placed ress)"
    and "\<forall>r \<in> set (placed ress). lies_within r (mkRect 0 0 bw bh)"
    by (simp_all add: packing_def inbin_def)
  then show ?thesis
    using disjoint_rects_nth [of "placed ress"] by blast
qed

theorem C2_no_overlap_within_bin_witness:
  "disjoint_rects [mkRect 0 0 3 3, mkRect 3 0 1 4, mkRect 0 3 1 1] \<and>
   lies_within (mkRect 0 0 3 3) (mkRect 0 0 4 4) \<and>
   lies_within (mkRect 3 0 1 4) (mkRect 0 0 4 4) \<and>
   lies_within (mkRect 0 3 1 1) (mkRect 0 0 4 4)"
proof -
  have b: "(0 :: int64) \<le>s 4" by code_simp
  have c: "nonneg_calls [(3, 3), (1, 4), (1, 1), (4, 4)]" by code_simp
  have r: "Inserts (New 4 4) [(3, 3), (1, 4), (1, 1), (4, 4)] =
      (fst (Inserts (New 4 4) [(3, 3), (1, 4), (1, 1), (4, 4)]),
       [Inr (mkRect 0 0 3 3), Inr (mkRect 3 0 1 4), Inr (mkRect 0 3 1 1), Inl ErrNoMoreSpace])"
    by code_simp
  from C2_no_overlap_within_bin [OF b b c r] show ?thesis by simp
qed

subsection \<open>Claim C3\<close>

text \<open>
  C3, counterexample. On a 4x4 bin, after Insert(3, 3) the call Insert(1, 4) does not fail:
  the tie restW = restH = 1 splits vertically, the right child is (3, 0, 1, 4), and the call
  returns that rectangle.
\<close>

theorem C3_second_insert_counterexample:
  "snd (Insert (fst (Insert (New 4 4) 3 3)) 1 4) = Inr (mkRect 3 0 1 4) \<and>
   snd (Insert (fst (Insert (New 4 4) 3 3)) 1 4) \<noteq> Inl ErrNoMoreSpace"
  by code_simp

text \<open>
  C3, amended. Starting from New(4, 4): Insert(3, 3) succeeds and returns Rect{0, 0, 3, 3};
  a following Insert(1, 4) succeeds and returns Rect{3, 0, 1, 4}; and a following
  Insert(1, 1) succeeds (it returns Rect{0, 3, 1, 1}).
\<close>

theorem C3_scenario:
  "snd (Inserts (New 4 4) [(3, 3), (1, 4), (1, 1)]) =
     [Inr (mkRect 0 0 3 3), Inr (mkRect 3 0 1 4), Inr (mkRect 0 3 1 1)]"
  by code_simp

theorem C3_scenario_witness:
  "placed (snd (Inserts (New 4 4) [(3, 3), (1, 4), (1, 1)])) =
     [mkRect 0 0 3 3, mkRect 3 0 1 4, mkRect 0 3 1 1]"
  using C3_scenario by simp

subsection \<open>Claim C4\<close>

text \<open>
  C4, counterexample. A bin of zero area admits an insert of zero size: on New(0, 0) the
  call Insert(0, 0) succeeds and returns Rect{0, 0, 0, 0}, and on New(0, 5) the call
  Insert(0, 3) returns Rect{0, 0, 0, 3}.
\<close>

theorem C4_zero_request_counterexample:
  "snd (Insert (New 0 0) 0 0) = Inr (mkRect 0 0 0 0) \<and>
   snd (Insert (New 0 5) 0 3) = Inr (mkRect 0 0 0 3)"
  by code_simp

text \<open>
  C4, amended. For a bin built by New with a width and a height that are not negative and
  one of them zero, and every state reached from it by Insert calls whose widths and
  heights are not negative, every Insert call with a positive width and a positive height
  fails with the no-space error and leaves the packer as it was.
\<close>

theorem C4_flat_bin_rejects_positive:
  assumes "0 \<le>s bw" and "0 \<le>s bh" and "bw = 0 \<or> bh = 0"
    and "nonneg_calls cs" and "Inserts (New bw bh) cs = (p, ress)"
    and "0 <s w" and "0 <s h"
  shows "Insert p w h = (p, Inl ErrNoMoreSpace)"
proof -
  have "packing bw bh (placed ress) (leaves (root p))"
    using assms(1,2,4,5) by (rule Inserts_New_packing)
  then have "first_fit (leaves (root p)) w h = None"
    using assms(3,6,7) by (rule flat_bin_no_fit)
  then show ?thesis by (rule Insert_no_fit)
qed

theorem C4_flat_bin_rejects_positive_witness:
  "Insert (fst (Inserts (New 0 5) [(0, 3), (0, 0)])) 1 1 =
     (fst (Inserts (New 0 5) [(0, 3), (0, 0)]), Inl ErrNoMoreSpace)"
proof -
  have a: "(0 :: int64) \<le>s 0" "(0 :: int64) \<le>s 5" "(0 :: int64) <s 1" by code_simp+
  have c: "nonneg_calls [(0, 3), (0, 0)]" by code_simp
  have r: "Inserts (New 0 5) [(0, 3), (0, 0)] =
      (fst (Inserts (New 0 5) [(0, 3), (0, 0)]), [Inr (mkRect 0 0 0 3), Inr (mkRect 0 0 0 0)])"
    by code_simp
  from C4_flat_bin_rejects_positive [OF a(1,2) _ c r a(3,3)] show ?thesis by simp
qed

subsection \<open>Claim C5\<close>

text \<open>
  C5. When insert reaches a leaf with width <= leaf.width and height <= leaf.height, the
  leaf's own rectangle becomes (x, y, width, height), the two attached children are the
  leaves that \<open>split_children\<close> words as the specification does (the first pair if
  restW < restH, the second pair otherwise, ties included), and the node with that
  rectangle is the result, so Insert returns (x, y, width, height).
\<close>

theorem C5_leaf_split:
  assumes "width \<le>s Width r" and "height \<le>s Height r"
  shows "insert_node (Node r None None) width height =
           (Node (mkRect (X r) (Y r) width height)
              (Some (Node (fst (split_children r width height)) None None))
              (Some (Node (snd (split_children r width height)) None None)),
            Inr (Node (mkRect (X r) (Y r) width height)
              (Some (Node (fst (split_children r width height)) None None))
              (Some (Node (snd (split_children r width height)) None None)))) \<and>
         snd (Insert \<lparr>root = Node r None None, binWidth = bw, binHeight = bh\<rparr> width height)
           = Inr (mkRect (X r) (Y r) width height)"
  using assms
  by (simp add: Insert_def insert_node_leaf fits_iff split_leaf_def leafNode_def occupy_mkRect)

theorem C5_leaf_split_witness:
  "insert_node (Node (mkRect 2 1 5 7) None None) 3 4 =
     (Node (mkRect 2 1 3 4) (Some (Node (mkRect 5 1 2 4) None None))
        (Some (Node (mkRect 2 5 5 3) None None)),
      Inr (Node (mkRect 2 1 3 4) (Some (Node (mkRect 5 1 2 4) None None))
        (Some (Node (mkRect 2 5 5 3) None None)))) \<and>
   insert_node (Node (mkRect 2 1 5 5) None None) 3 3 =
     (Node (mkRect 2 1 3 3) (Some (Node (mkRect 2 4 3 2) None None))
        (Some (Node (mkRect 5 1 2 5) None None)),
      Inr (Node (mkRect 2 1 3 3) (Some (Node (mkRect 2 4 3 2) None None))
        (Some (Node (mkRect 5 1 2 5) None None))))"
proof -
  have a: "(3 :: int64) \<le>s Width (mkRect 2 1 5 7)" "(4 :: int64) \<le>s Height (mkRect 2 1 5 7)"
    by code_simp+
  have b: "(3 :: int64) \<le>s Width (mkRect 2 1 5 5)" "(3 :: int64) \<le>s Height (mkRect 2 1 5 5)"
    by code_simp+
  have c: "split_children (mkRect 2 1 5 7) 3 4 = (mkRect 5 1 2 4, mkRect 2 5 5 3)"
    "split_children (mkRect 2 1 5 5) 3 3 = (mkRect 2 4 3 2, mkRect 5 1 2 5)"
    by code_simp+
  have d: "X (mkRect 2 1 5 7) = 2" "Y (mkRect 2 1 5 7) = 1" "X (mkRect 2 1 5 5) = 2" "Y (mkRect 2 1 5 5) = 1"
    by (simp_all add: mkRect_def)
  from C5_leaf_split [OF a] C5_leaf_split [OF b] show ?thesis
    by (simp add: c d)
qed

subsection \<open>Claim C6\<close>

text \<open>
  C6. The search of insert is depth-first and pre-order. At a node with two children it
  recurses into the left child first; if that succeeds, the result is returned and the
  right child is left as it was; otherwise the right child is tried and its result,
  success or failure, is the result of the node. Consequently, on every tree, insert
  places the rectangle in the first leaf that fits, in depth-first left-to-right order:
  it fails exactly when first fit on the list of leaves finds none, and otherwise the
  leaves after the call and the returned rectangle are those of first fit.
\<close>

theorem C6_depth_first_first_fit:
  "insert_node (Node r (Some l) (Some rt)) w h =
     (case insert_node l w h of
        (l', Inr found) \<Rightarrow> (Node r (Some l') (Some rt), Inr found)
      | (l', Inl e) \<Rightarrow>
          (case insert_node rt w h of (rt', res) \<Rightarrow> (Node r (Some l) (Some rt'), res))) \<and>
   (case insert_node n w h of
      (n', Inl e) \<Rightarrow> first_fit (leaves n) w h = None \<and> e = ErrNoMoreSpace
    | (n', Inr found) \<Rightarrow> first_fit (leaves n) w h = Some (leaves n', rect found))"
proof
  show "insert_node (Node r (Some l) (Some rt)) w h =
     (case insert_node l w h of
        (l', Inr found) \<Rightarrow> (Node r (Some l') (Some rt), Inr found)
      | (l', Inl e) \<Rightarrow>
          (case insert_node rt w h of (rt', res) \<Rightarrow> (Node r (Some l) (Some rt'), res)))"
    by (auto simp: insert_node_both dest: insert_node_fail_unchanged
        split: prod.splits sum.splits)
  show "case insert_node n w h of
      (n', Inl e) \<Rightarrow> first_fit (leaves n) w h = None \<and> e = ErrNoMoreSpace
    | (n', Inr found) \<Rightarrow> first_fit (leaves n) w h = Some (leaves n', rect found)"
    using insert_node_first_fit [of n w h] by (auto split: prod.splits sum.splits)
qed

theorem C6_depth_first_first_fit_witness:
  "first_fit [mkRect 0 3 3 1, mkRect 3 0 1 4] 1 4 =
     Some ([mkRect 0 3 3 1, mkRect 3 4 1 0, mkRect 4 0 0 4], mkRect 3 0 1 4) \<and>
   first_fit [mkRect 0 3 3 1, mkRect 3 0 1 4] 4 4 = None"
proof -
  define n where "n = root (fst (Insert (New 4 4) 3 3))"
  have l: "leaves n = [mkRect 0 3 3 1, mkRect 3 0 1 4]"
    unfolding n_def by code_simp
  have a: "insert_node n 1 4 =
      (Node (mkRect 0 0 3 3) (Some (Node (mkRect 0 3 3 1) None None))
         (Some (Node (mkRect 3 0 1 4) (Some (Node (mkRect 3 4 1 0) None None))
            (Some (Node (mkRect 4 0 0 4) None None)))),
       Inr (Node (mkRect 3 0 1 4) (Some (Node (mkRect 3 4 1 0) None None))
            (Some (Node (mkRect 4 0 0 4) None None))))"
    unfolding n_def by code_simp
  have b: "insert_node n 4 4 = (n, Inl ErrNoMoreSpace)"
    unfolding n_def by code_simp
  from C6_depth_first_first_fit [of _ _ _ 1 4 n] C6_depth_first_first_fit [of _ _ _ 4 4 n]
  show ?thesis
    by (simp add: a b l [symmetric])
qed

subsection \<open>Claim C7\<close>

text \<open>
  C7. Enlarge(newWidth, newHeight) returns an error if and only if newWidth < binWidth or
  newHeight < binHeight. On success the root is an interior node with rectangle
  (0, 0, newWidth, newHeight) whose two children are exactly the leaves
  (0, binHeight, newWidth, newHeight - binHeight) and
  (binWidth, 0, newWidth - binWidth, binHeight), for the bin dimensions before the call, and
  the stored bin dimensions are newWidth and newHeight.
\<close>

theorem C7_enlarge:
  "(snd (Enlarge p newWidth newHeight) \<noteq> None
      \<longleftrightarrow> newWidth <s binWidth p \<or> newHeight <s binHeight p) \<and>
   (snd (Enlarge p newWidth newHeight) = None \<longrightarrow>
      root (fst (Enlarge p newWidth newHeight)) =
        Node (mkRect 0 0 newWidth newHeight)
          (Some (Node (mkRect 0 (binHeight p) newWidth (newHeight - binHeight p)) None None))
          (Some (Node (mkRect (binWidth p) 0 (newWidth - binWidth p) (binHeight p)) None None)) \<and>
      binWidth (fst (Enlarge p newWidth newHeight)) = newWidth \<and>
      binHeight (fst (Enlarge p newWidth newHeight)) = newHeight)"
  by (simp add: Enlarge_def leafNode_def)

theorem C7_enlarge_witness:
  "root (fst (Enlarge (New 5 5) 20 20)) =
     Node (mkRect 0 0 20 20) (Some (Node (mkRect 0 5 20 15) None None))
       (Some (Node (mkRect 5 0 15 5) None None)) \<and>
   binWidth (fst (Enlarge (New 5 5) 20 20)) = 20 \<and>
   binHeight (fst (Enlarge (New 5 5) 20 20)) = 20 \<and>
   snd (Enlarge (New 5 5) 4 20) \<noteq> None"
proof -
  have a: "snd (Enlarge (New 5 5) 20 20) = None" by code_simp
  have b: "(4 :: int64) <s binWidth (New 5 5)" by code_simp
  have c: "binWidth (New 5 5) = 5" "binHeight (New 5 5) = 5" by (simp_all add: New_def)
  from C7_enlarge [of "New 5 5" 20 20] C7_enlarge [of "New 5 5" 4 20] a b show ?thesis
    by (simp add: c)
qed

subsection \<open>Claim C8\<close>

text \<open>
  C8. Both operations are atomic on failure. Whenever Insert returns an error, the error is
  the no-space error and the packer after the call (the whole tree and the bin dimensions)
  is the packer before the call; whenever Enlarge returns an error, the packer after the
  call is the packer before the call.
\<close>

theorem C8_failure_atomic:
  "(snd (Insert p w h) = Inl e \<longrightarrow> e = ErrNoMoreSpace \<and> fst (Insert p w h) = p) \<and>
   (snd (Enlarge p nw nh) = Some e' \<longrightarrow> fst (Enlarge p nw nh) = p)"
proof -
  have "fst (Insert p w h) = p \<and> e = ErrNoMoreSpace" if "snd (Insert p w h) = Inl e"
    using that Insert_cases [of p w h]
    by (cases "Insert p w h") (auto split: sum.splits)
  moreover have "fst (Enlarge p nw nh) = p" if "snd (Enlarge p nw nh) = Some e'"
    using that by (auto simp: Enlarge_def split: if_splits)
  ultimately show ?thesis by blast
qed

theorem C8_failure_atomic_witness:
  "fst (Insert (fst (Insert (New 4 4) 3 3)) 4 4) = fst (Insert (New 4 4) 3 3) \<and>
   fst (Enlarge (fst (Insert (New 4 4) 3 3)) 3 9) = fst (Insert (New 4 4) 3 3)"
proof -
  have a: "snd (Insert (fst (Insert (New 4 4) 3 3)) 4 4) = Inl ErrNoMoreSpace" by code_simp
  have b: "snd (Enlarge (fst (Insert (New 4 4) 3 3)) 3 9) = Some ErrEnlargeSmaller" by code_simp
  from C8_failure_atomic [of "fst (Insert (New 4 4) 3 3)" 4 4 ErrNoMoreSpace 3 9 ErrEnlargeSmaller]
    a b
  show ?thesis by simp
qed

subsection \<open>Claim C9\<close>




subsection \<open>Claim C10\<close>

text \<open>
  C10. Every successful Insert(width, height) changes exactly one node of the tree: one
  leaf, whose Width and Height become the requested width and height (its X and Y stay)
  and which gains two children that are leaves. Every other node, with its rectangle and
  its children, is the same before and after, and so are binWidth and binHeight. The
  returned rectangle has the requested width and height.
\<close>

theorem C10_insert_frame:
  assumes "Insert p w h = (p', Inr r)"
  shows "leaf_replaced w h (root p) (root p') \<and> Width r = w \<and> Height r = h \<and>
         binWidth p' = binWidth p \<and> binHeight p' = binHeight p"
  using assms
  by (auto simp: Insert_def split: prod.splits sum.splits
      dest: insert_node_leaf_replaced insert_node_success_dims)

theorem C10_insert_frame_witness:
  "leaf_replaced 1 1
     (Node (mkRect 0 0 3 3) (Some (Node (mkRect 0 3 3 1) None None))
        (Some (Node (mkRect 3 0 1 4) None None)))
     (Node (mkRect 0 0 3 3)
        (Some (Node (mkRect 0 3 1 1) (Some (Node (mkRect 0 4 1 0) None None))
           (Some (Node (mkRect 1 3 2 1) None None))))
        (Some (Node (mkRect 3 0 1 4) None None)))"
proof -
  define p where "p = \<lparr>root = Node (mkRect 0 0 3 3) (Some (Node (mkRect 0 3 3 1) None None))
        (Some (Node (mkRect 3 0 1 4) None None)), binWidth = 4, binHeight = 4\<rparr>"
  define p' where "p' = \<lparr>root = Node (mkRect 0 0 3 3)
        (Some (Node (mkRect 0 3 1 1) (Some (Node (mkRect 0 4 1 0) None None))
           (Some (Node (mkRect 1 3 2 1) None None))))
        (Some (Node (mkRect 3 0 1 4) None None)), binWidth = 4, binHeight = 4\<rparr>"
  have h: "Insert p 1 1 = (p', Inr (mkRect 0 3 1 1))"
    unfolding p_def p'_def by code_simp
  from C10_insert_frame [OF h] show ?thesis
    by (simp add: p_def p'_def)
qed

end
